theory Spec2Isabelle
  imports Main "HOL-Library.Word" "HOL-Library.AList"
begin

section \<open>Data model of the hub (hub.go)\<close>

text \<open>
  The records follow the Go structs field by field. \<open>SSEMessage\<close> is built in
  \<open>Broadcast\<close> with the four fields \<open>ID\<close>, \<open>Data\<close>, \<open>Targets\<close> and \<open>HandlerID\<close>;
  \<open>[]byte\<close> is a list of 8-bit words and \<open>uint8\<close> an 8-bit word.
\<close>

record SSEMessage =
  ID :: string
  Data :: "8 word list"
  Targets :: "string list"
  HandlerID :: "8 word"

text \<open>
  \<open>Config\<close>: the integer and string fields. Go's \<open>int\<close> is modelled as \<open>int\<close>: the
  only arithmetic on a configuration value is \<open>len(buffer) - HistoryReplayBuffer\<close> under
  the guard \<open>len(buffer) > HistoryReplayBuffer > 0\<close>, which cannot overflow. The callback
  and token fields are function values the hub never calls; they are left out.
\<close>

record Config =
  ClientChannelBuffer :: int
  HistoryReplayBuffer :: int
  Endpoint :: string
  RetryInterval :: int
  MaxRetryDelay :: int
  MaxReconnectAttempts :: int
  AllowedOrigins :: "string list"

text \<open>
  A Go channel \<open>chan SSEMessage\<close> is a reference to a bounded FIFO queue that can be
  closed. The queues live in a store indexed by addresses; an address with no entry is
  the nil channel.
\<close>

record chan =
  queue :: "SSEMessage list"
  capacity :: nat
  closed :: bool

type_synonym chan_store = "nat \<rightharpoonup> chan"

text \<open>
  \<open>clientConnection\<close>: the field \<open>ID\<close> of the Go struct is named \<open>clientID\<close> here, since
  \<open>ID\<close> is already the field of \<open>SSEMessage\<close>. \<open>Send\<close> is the address of the client's
  outbound queue. The hub reads the fields of a connection and never writes them, so the
  pointer \<open>*clientConnection\<close> is modelled by the value it points to.
\<close>

record clientConnection =
  clientID :: string
  UserID :: string
  Role :: string
  Channels :: "string list"
  Send :: nat

text \<open>
  \<open>SSEHub\<close>: the map \<open>clients\<close> is an association list with one entry per key; its
  order is the order in which \<open>range h.clients\<close> visits the entries, which Go leaves
  unspecified, so a statement about every hub covers every iteration order. The mutex
  \<open>mu\<close> has no counterpart: every operation below is one atomic step. \<open>config\<close> is the
  configuration the (non-nil) pointer refers to; \<open>lastID\<close> is a \<open>uint64\<close>.
\<close>

record SSEHub =
  clients :: "(string \<times> clientConnection) list"
  messageBuffer :: "SSEMessage list"
  config :: Config
  lastID :: "64 word"

record world =
  hub :: SSEHub
  chans :: chan_store

text \<open>
  How a call ends. \<open>Returned\<close>: the call returns. \<open>Blocked\<close>: the calling goroutine is
  parked on a channel send that cannot proceed in the state reached, and stays parked
  until another goroutine receives from that channel. \<open>Panicked\<close>: a run-time panic.
  Each carries the state at that moment.
\<close>

datatype 'a outcome = Returned 'a | Blocked 'a | Panicked 'a

fun state_of :: "'a outcome \<Rightarrow> 'a" where
  "state_of (Returned s) = s"
| "state_of (Blocked s) = s"
| "state_of (Panicked s) = s"

fun returned :: "'a outcome \<Rightarrow> bool" where
  "returned (Returned s) = True"
| "returned (Blocked s) = False"
| "returned (Panicked s) = False"

section \<open>The two functions of Go's strconv that hub.go calls\<close>

text \<open>
  \<open>strconv.FormatUint(i, 10)\<close>: the decimal digits of \<open>i\<close>, most significant first,
  \<open>"0"\<close> for zero.
\<close>

definition digit_char :: "nat \<Rightarrow> char" where
  "digit_char d = ''0123456789'' ! d"

fun dec :: "nat \<Rightarrow> string" where
  "dec n = (if n < 10 then [digit_char n] else dec (n div 10) @ [digit_char (n mod 10)])"

declare dec.simps [simp del]

definition FormatUint :: "64 word \<Rightarrow> string" where
  "FormatUint i = dec (unat i)"

text \<open>
  \<open>strconv.ParseUint(s, 10, 64)\<close>: a syntax error on the empty string and on any byte
  that is not a decimal digit (with base 10 a letter is a digit value of 10 or more,
  refused like any other byte; no sign and no underscore is accepted), a range error as
  soon as the value read so far leaves 64 bits. The loop is the library's: \<open>cutoff\<close> is
  the least \<open>n\<close> with \<open>n * 10\<close> beyond 64 bits.
\<close>

datatype NumError = ErrSyntax | ErrRange

definition is_digit :: "char \<Rightarrow> bool" where
  "is_digit c = (48 \<le> (of_char c :: nat) \<and> (of_char c :: nat) \<le> 57)"

definition digit_val :: "char \<Rightarrow> nat" where
  "digit_val c = of_char c - 48"

definition maxVal :: nat where
  "maxVal = 2 ^ 64 - 1"

definition cutoff :: nat where
  "cutoff = maxVal div 10 + 1"

fun ParseUint_loop :: "nat \<Rightarrow> string \<Rightarrow> NumError + nat" where
  "ParseUint_loop n [] = Inr n"
| "ParseUint_loop n (c # s) =
     (if \<not> is_digit c then Inl ErrSyntax
      else if cutoff \<le> n then Inl ErrRange
      else if maxVal < n * 10 + digit_val c then Inl ErrRange
      else ParseUint_loop (n * 10 + digit_val c) s)"

definition ParseUint :: "string \<Rightarrow> NumError + 64 word" where
  "ParseUint s =
     (if s = [] then Inl ErrSyntax
      else case ParseUint_loop 0 s of
             Inl err \<Rightarrow> Inl err
           | Inr n \<Rightarrow> Inr (of_nat n))"

section \<open>Channel operations, as the Go language defines them\<close>

text \<open>
  \<open>ch <- v\<close>: a send on a nil channel blocks forever; a send on a closed channel
  panics; a send on an open channel appends to the queue when the queue has room and
  blocks otherwise (an unbuffered channel has capacity 0 and never has room).
\<close>

definition chan_send :: "nat \<Rightarrow> SSEMessage \<Rightarrow> chan_store \<Rightarrow> chan_store outcome" where
  "chan_send a msg H =
     (case H a of
        None \<Rightarrow> Blocked H
      | Some c \<Rightarrow>
          if closed c then Panicked H
          else if length (queue c) < capacity c
            then Returned (H(a \<mapsto> c\<lparr>queue := queue c @ [msg]\<rparr>))
          else Blocked H)"

text \<open>\<open>close(ch)\<close>: closing a nil channel or a closed channel panics.\<close>

definition chan_close :: "nat \<Rightarrow> chan_store \<Rightarrow> chan_store outcome" where
  "chan_close a H =
     (case H a of
        None \<Rightarrow> Panicked H
      | Some c \<Rightarrow> if closed c then Panicked H else Returned (H(a \<mapsto> c\<lparr>closed := True\<rparr>)))"

section \<open>The hub\<close>

definition NewHub :: "Config \<Rightarrow> SSEHub" where
  "NewHub c = \<lparr>clients = [], messageBuffer = [], config = c, lastID = 0\<rparr>"

text \<open>
  The first critical section of \<open>Broadcast\<close> (under \<open>h.mu.Lock()\<close>): increment the
  counter, build the record, append it to the history, trim the history. The result is
  the record \<open>msg\<close> and the hub after the section.
\<close>

definition stamp :: "8 word list \<Rightarrow> string list \<Rightarrow> 8 word \<Rightarrow> SSEHub \<Rightarrow> SSEMessage \<times> SSEHub" where
  "stamp data broadcast handlerID h =
     (let lastID' = lastID h + 1;
          msg = \<lparr>ID = FormatUint lastID', Data = data, Targets = broadcast,
                 HandlerID = handlerID\<rparr>;
          buf = messageBuffer h @ [msg];
          n = HistoryReplayBuffer (config h);
          buf' = (if 0 < n \<and> n < int (length buf)
                  then drop (nat (int (length buf) - n)) buf else buf)
      in (msg, h\<lparr>messageBuffer := buf', lastID := lastID'\<rparr>))"

text \<open>
  The second section (under \<open>h.mu.RLock()\<close>): three nested loops. The innermost runs
  over \<open>client.Channels\<close>; at the first channel equal to the target it sends and its
  \<open>break\<close> leaves this innermost loop only.
\<close>

fun channels_loop :: "SSEMessage \<Rightarrow> nat \<Rightarrow> string \<Rightarrow> string list \<Rightarrow> chan_store \<Rightarrow> chan_store outcome" where
  "channels_loop msg a target [] H = Returned H"
| "channels_loop msg a target (channel # rest) H =
     (if target = channel then chan_send a msg H
      else channels_loop msg a target rest H)"

fun targets_loop :: "SSEMessage \<Rightarrow> clientConnection \<Rightarrow> string list \<Rightarrow> chan_store \<Rightarrow> chan_store outcome" where
  "targets_loop msg client [] H = Returned H"
| "targets_loop msg client (target # rest) H =
     (case channels_loop msg (Send client) target (Channels client) H of
        Returned H' \<Rightarrow> targets_loop msg client rest H'
      | Blocked H' \<Rightarrow> Blocked H'
      | Panicked H' \<Rightarrow> Panicked H')"

fun clients_loop :: "SSEMessage \<Rightarrow> string list \<Rightarrow> (string \<times> clientConnection) list \<Rightarrow> chan_store \<Rightarrow> chan_store outcome" where
  "clients_loop msg broadcast [] H = Returned H"
| "clients_loop msg broadcast ((k, client) # rest) H =
     (case targets_loop msg client broadcast H of
        Returned H' \<Rightarrow> clients_loop msg broadcast rest H'
      | Blocked H' \<Rightarrow> Blocked H'
      | Panicked H' \<Rightarrow> Panicked H')"

definition Broadcast :: "8 word list \<Rightarrow> string list \<Rightarrow> 8 word \<Rightarrow> world \<Rightarrow> world outcome" where
  "Broadcast data broadcast handlerID w =
     (let (msg, h) = stamp data broadcast handlerID (hub w)
      in map_outcome (\<lambda>H. \<lparr>hub = h, chans = H\<rparr>)
           (clients_loop msg broadcast (clients h) (chans w)))"

definition register :: "clientConnection \<Rightarrow> world \<Rightarrow> world" where
  "register client w =
     w\<lparr>hub := (hub w)\<lparr>clients := AList.update (clientID client) client (clients (hub w))\<rparr>\<rparr>"

text \<open>
  \<open>unregister\<close>: the lookup is by \<open>client.ID\<close>; the entry is deleted first and
  \<open>client.Send\<close>, the queue of the connection passed in, is closed next.
\<close>

definition unregister :: "clientConnection \<Rightarrow> world \<Rightarrow> world outcome" where
  "unregister client w =
     (case map_of (clients (hub w)) (clientID client) of
        None \<Rightarrow> Returned w
      | Some registered \<Rightarrow>
          map_outcome
            (\<lambda>H. \<lparr>hub = (hub w)\<lparr>clients := AList.delete (clientID client) (clients (hub w))\<rparr>,
                  chans = H\<rparr>)
            (chan_close (Send client) (chans w)))"

text \<open>
  \<open>GetMessagesSince\<close> only reads the hub (it holds the read lock and assigns to no
  field), so it is a function of the hub and the string; the nil slice is the empty list.
\<close>

fun since_loop :: "64 word \<Rightarrow> SSEMessage list \<Rightarrow> SSEMessage list \<Rightarrow> SSEMessage list" where
  "since_loop lastID' [] messages = messages"
| "since_loop lastID' (msg # rest) messages =
     (case ParseUint (ID msg) of
        Inl err \<Rightarrow> since_loop lastID' rest messages
      | Inr msgID \<Rightarrow>
          if lastID' < msgID then since_loop lastID' rest (messages @ [msg])
          else since_loop lastID' rest messages)"

definition GetMessagesSince :: "SSEHub \<Rightarrow> string \<Rightarrow> SSEMessage list" where
  "GetMessagesSince h lastEventID =
     (if lastEventID = [] then []
      else case ParseUint lastEventID of
             Inl err \<Rightarrow> []
           | Inr lastID' \<Rightarrow> since_loop lastID' (messageBuffer h) [])"

section \<open>Sequences of publishes\<close>

type_synonym publish = "8 word list \<times> string list \<times> 8 word"

text \<open>The record that the call \<open>Broadcast\<close> builds when it starts in the given state.\<close>

definition assigned :: "publish \<Rightarrow> world \<Rightarrow> SSEMessage" where
  "assigned p w = (case p of (data, broadcast, handlerID) \<Rightarrow> fst (stamp data broadcast handlerID (hub w)))"

text \<open>
  Calls made one after the other, each starting when the previous one has returned; a
  call that does not return ends the sequence. \<open>records\<close> lists the records the calls
  build, in call order.
\<close>

fun Broadcasts :: "publish list \<Rightarrow> world \<Rightarrow> world outcome" where
  "Broadcasts [] w = Returned w"
| "Broadcasts (p # ps) w =
     (case (case p of (data, broadcast, handlerID) \<Rightarrow> Broadcast data broadcast handlerID w) of
        Returned w' \<Rightarrow> Broadcasts ps w'
      | Blocked w' \<Rightarrow> Blocked w'
      | Panicked w' \<Rightarrow> Panicked w')"

fun records :: "publish list \<Rightarrow> world \<Rightarrow> SSEMessage list" where
  "records [] w = []"
| "records (p # ps) w =
     assigned p w #
     (case (case p of (data, broadcast, handlerID) \<Rightarrow> Broadcast data broadcast handlerID w) of
        Returned w' \<Rightarrow> records ps w'
      | Blocked w' \<Rightarrow> []
      | Panicked w' \<Rightarrow> [])"

section \<open>Notions used to state the properties\<close>

text \<open>
  The number a record's \<open>ID\<close> stands for, as \<open>GetMessagesSince\<close> reads it: the result
  of \<open>ParseUint\<close>, or nothing where \<open>ParseUint\<close> fails and the loop takes \<open>continue\<close>.
\<close>

definition idOf :: "SSEMessage \<Rightarrow> 64 word option" where
  "idOf m = (case ParseUint (ID m) of Inl err \<Rightarrow> None | Inr i \<Rightarrow> Some i)"

definition newer_than :: "64 word \<Rightarrow> SSEMessage \<Rightarrow> bool" where
  "newer_than w m = (case idOf m of None \<Rightarrow> False | Some i \<Rightarrow> w < i)"

text \<open>Every id is a number and the numbers strictly increase along the list.\<close>

definition ascending :: "SSEMessage list \<Rightarrow> bool" where
  "ascending ms =
     (list_all (\<lambda>m. idOf m \<noteq> None) ms \<and>
      sorted_wrt (\<lambda>a b. the (idOf a) < the (idOf b)) ms)"

text \<open>
  What "parses as an unsigned 64-bit decimal integer" means, stated without the library's
  loop: a non-empty string of decimal digits whose value is below \<open>2 ^ 64\<close>.
\<close>

definition decimal_value :: "string \<Rightarrow> nat" where
  "decimal_value s = foldl (\<lambda>n c. n * 10 + digit_val c) 0 s"

definition is_uint64_decimal :: "string \<Rightarrow> bool" where
  "is_uint64_decimal s = (s \<noteq> [] \<and> list_all is_digit s \<and> decimal_value s < 2 ^ 64)"

text \<open>
  No registered connection has a closed queue. The hub closes a queue only in
  \<open>unregister\<close>, after it has deleted the connection from \<open>clients\<close>.
\<close>

definition none_closed :: "(string \<times> clientConnection) list \<Rightarrow> chan_store \<Rightarrow> bool" where
  "none_closed cs H =
     list_all (\<lambda>(k, c). case H (Send c) of None \<Rightarrow> True | Some q \<Rightarrow> \<not> closed q) cs"

text \<open>
  The registry as the hub's own operations keep it: every entry is filed under the id
  of its connection, no two registered connections share a queue, and every registered
  queue exists and is open.
\<close>

definition well_formed :: "world \<Rightarrow> bool" where
  "well_formed w =
     (distinct (map (\<lambda>(k, c). Send c) (clients (hub w))) \<and>
      list_all (\<lambda>(k, c). k = clientID c \<and>
                 (case chans w (Send c) of None \<Rightarrow> False | Some q \<Rightarrow> \<not> closed q))
        (clients (hub w)))"

text \<open>
  What a run of sends can do to the store (used in the proofs only): no queue appears or
  disappears, no queue is closed or reopened, and a queue that is full stays as it is.
\<close>

definition grows :: "chan_store \<Rightarrow> chan_store \<Rightarrow> bool" where
  "grows H H' =
     (\<forall>a. case H a of
            None \<Rightarrow> H' a = None
          | Some q \<Rightarrow> (\<exists>q'. H' a = Some q' \<and> closed q' = closed q \<and>
                          (capacity q \<le> length (queue q) \<longrightarrow> q' = q)))"

section \<open>The reconnection engine\<close>

text \<open>
  Modelled from the spec: the client-side reconnection engine (the wasm build's client)
  is not among the sources; only the configuration fields \<open>RetryInterval\<close>,
  \<open>MaxRetryDelay\<close> and \<open>MaxReconnectAttempts\<close> are. The definitions follow section 4.2 of
  the specification sentence by sentence. A session carries \<open>attemptCount\<close> and
  \<open>currentDelay\<close>. A successful connect moves to \<open>Open\<close> and "resets attemptCount to zero
  and currentDelay to the configured base interval". On stream loss while \<open>Open\<close> or
  \<open>Connecting\<close>: "if attemptCount has reached the configured maximum (when the maximum
  is non-zero), transition to Closed"; "otherwise increment attemptCount, compute the
  next delay as the previous delay doubled and capped at a configured maximum, wait that
  duration, then transition back to Connecting".
\<close>

datatype phase = Idle | Connecting | Open | Backoff | Closed

record session =
  phase :: phase
  attemptCount :: int
  currentDelay :: int

definition connect_succeeded :: "Config \<Rightarrow> session \<Rightarrow> session" where
  "connect_succeeded cfg s =
     s\<lparr>phase := Open, attemptCount := 0, currentDelay := RetryInterval cfg\<rparr>"

definition stream_lost :: "Config \<Rightarrow> session \<Rightarrow> session" where
  "stream_lost cfg s =
     (if phase s \<noteq> Open \<and> phase s \<noteq> Connecting then s
      else if MaxReconnectAttempts cfg \<noteq> 0 \<and> MaxReconnectAttempts cfg \<le> attemptCount s
        then s\<lparr>phase := Closed\<rparr>
      else s\<lparr>phase := Backoff, attemptCount := attemptCount s + 1,
             currentDelay := min (2 * currentDelay s) (MaxRetryDelay cfg)\<rparr>)"

text \<open>The duration a session in \<open>Backoff\<close> waits, and the end of the wait.\<close>

definition backoff_wait :: "session \<Rightarrow> int option" where
  "backoff_wait s = (if phase s = Backoff then Some (currentDelay s) else None)"

definition backoff_elapsed :: "session \<Rightarrow> session" where
  "backoff_elapsed s = (if phase s = Backoff then s\<lparr>phase := Connecting\<rparr> else s)"

text \<open>
  The wait after the \<open>k\<close>-th of \<open>k\<close> consecutive losses (every reconnect attempt in
  between fails, so the session meets the next loss in \<open>Connecting\<close>); nothing if the
  session does not wait then.
\<close>

fun kth_wait :: "Config \<Rightarrow> session \<Rightarrow> nat \<Rightarrow> int option" where
  "kth_wait cfg s 0 = None"
| "kth_wait cfg s (Suc 0) = backoff_wait (stream_lost cfg s)"
| "kth_wait cfg s (Suc (Suc k)) = kth_wait cfg (backoff_elapsed (stream_lost cfg s)) (Suc k)"

section \<open>Concrete hubs used in the examples\<close>

definition example_config :: "int \<Rightarrow> int \<Rightarrow> Config" where
  "example_config queue_size history_size =
     \<lparr>ClientChannelBuffer = queue_size, HistoryReplayBuffer = history_size, Endpoint = [],
      RetryInterval = 1000, MaxRetryDelay = 30000, MaxReconnectAttempts = 0,
      AllowedOrigins = []\<rparr>"

text \<open>A hub as \<open>NewHub\<close> returns it, in a program that has made no channel yet.\<close>

definition fresh_world :: "Config \<Rightarrow> world" where
  "fresh_world c = \<lparr>hub = NewHub c, chans = Map.empty\<rparr>"

definition five_publishes :: "publish list" where
  "five_publishes =
     [([1], [''x''], 0), ([2], [''x''], 0), ([3], [''x''], 0), ([4], [''x''], 0),
      ([5], [''x''], 0)]"

text \<open>
  One registered connection \<open>c1\<close> following the given channels, its queue made with the
  given capacity, at address 0.
\<close>

definition subscriber :: "string list \<Rightarrow> clientConnection" where
  "subscriber chs =
     \<lparr>clientID = ''c1'', UserID = ''u1'', Role = ''user'', Channels = chs, Send = 0\<rparr>"

definition one_subscriber :: "nat \<Rightarrow> string list \<Rightarrow> world" where
  "one_subscriber n chs =
     register (subscriber chs)
       \<lparr>hub = NewHub (example_config (int n) 3),
        chans = [0 \<mapsto> \<lparr>queue = [], capacity = n, closed = False\<rparr>]\<rparr>"

text \<open>
  The state after one publish to channel \<open>x\<close> with a subscriber of \<open>x\<close> whose queue has
  capacity 1: the record with id 1 is in the history and in the queue.
\<close>

definition first_record :: SSEMessage where
  "first_record = \<lparr>ID = ''1'', Data = [1], Targets = [''x''], HandlerID = 0\<rparr>"

definition published_once :: world where
  "published_once =
     \<lparr>hub = \<lparr>clients = [(''c1'', subscriber [''x''])], messageBuffer = [first_record],
             config = example_config 1 3, lastID = 1\<rparr>,
      chans = [0 \<mapsto> \<lparr>queue = [first_record], capacity = 1, closed = False\<rparr>]\<rparr>"

section \<open>strconv: formatting and parsing agree\<close>

lemma digit_char_is_digit: "d < 10 \<Longrightarrow> is_digit (digit_char d)"
proof -
  assume "d < 10"
  then consider "d = 0" | "d = 1" | "d = 2" | "d = 3" | "d = 4"
    | "d = 5" | "d = 6" | "d = 7" | "d = 8" | "d = 9"
    by atomize_elim arith
  then show ?thesis
    by cases (simp_all add: digit_char_def is_digit_def)
qed

lemma digit_val_digit_char: "d < 10 \<Longrightarrow> digit_val (digit_char d) = d"
proof -
  assume "d < 10"
  then consider "d = 0" | "d = 1" | "d = 2" | "d = 3" | "d = 4"
    | "d = 5" | "d = 6" | "d = 7" | "d = 8" | "d = 9"
    by atomize_elim arith
  then show ?thesis
    by cases (simp_all add: digit_char_def digit_val_def)
qed

lemma ParseUint_loop_snoc:
  "ParseUint_loop n (s @ [c]) =
     (case ParseUint_loop n s of Inl err \<Rightarrow> Inl err | Inr m \<Rightarrow> ParseUint_loop m [c])"
  by (induction s arbitrary: n) simp_all

lemma dec_not_Nil: "dec n \<noteq> []"
  by (subst dec.simps) simp

lemma ParseUint_loop_dec: "n \<le> maxVal \<Longrightarrow> ParseUint_loop 0 (dec n) = Inr n"
proof (induction n rule: dec.induct)
  case (1 n)
  show ?case
  proof (cases "n < 10")
    case True
    then show ?thesis using "1.prems"
      by (subst dec.simps)
         (simp add: digit_char_is_digit digit_val_digit_char cutoff_def maxVal_def)
  next
    case False
    have small: "n div 10 < cutoff"
      using "1.prems" by (simp add: cutoff_def maxVal_def)
    have "n div 10 \<le> maxVal"
      using "1.prems" by simp
    then have ih: "ParseUint_loop 0 (dec (n div 10)) = Inr (n div 10)"
      using "1.IH" False by simp
    have recompose: "n div 10 * 10 + n mod 10 = n"
      by simp
    show ?thesis using False small "1.prems"
      by (subst dec.simps)
         (simp add: ParseUint_loop_snoc ih digit_char_is_digit digit_val_digit_char recompose)
  qed
qed

lemma ParseUint_FormatUint: "ParseUint (FormatUint i) = Inr i"
proof -
  have "unat i \<le> maxVal"
    using unsigned_less [of i, where 'a = nat] by (simp add: maxVal_def)
  then show ?thesis
    by (simp add: ParseUint_def FormatUint_def dec_not_Nil ParseUint_loop_dec)
qed

section \<open>ParseUint accepts exactly the 64-bit decimal numerals\<close>

lemma foldl_digits_ge: "n \<le> foldl (\<lambda>n c. n * 10 + digit_val c) n s"
proof (induction s arbitrary: n)
  case Nil
  show ?case by simp
next
  case (Cons c s)
  have "n \<le> n * 10 + digit_val c" by simp
  also have "\<dots> \<le> foldl (\<lambda>n c. n * 10 + digit_val c) (n * 10 + digit_val c) s"
    by (rule Cons.IH)
  finally show ?case by simp
qed

lemma ParseUint_loop_Inr:
  "ParseUint_loop n s = Inr m \<longleftrightarrow>
     list_all is_digit s \<and> m = foldl (\<lambda>n c. n * 10 + digit_val c) n s \<and> (s = [] \<or> m \<le> maxVal)"
proof (induction s arbitrary: n)
  case Nil
  show ?case by auto
next
  case (Cons c s)
  let ?n' = "n * 10 + digit_val c"
  have ge: "?n' \<le> foldl (\<lambda>n c. n * 10 + digit_val c) ?n' s"
    by (rule foldl_digits_ge)
  have cut: "cutoff \<le> n \<Longrightarrow> maxVal < ?n'"
    by (simp add: cutoff_def maxVal_def)
  show ?case
  proof (cases "is_digit c \<and> ?n' \<le> maxVal")
    case True
    then have "\<not> cutoff \<le> n" using cut by auto
    with True show ?thesis
      using Cons.IH [of ?n'] ge by (cases s) auto
  next
    case False
    then show ?thesis using ge cut by auto
  qed
qed

lemma ParseUint_Inr_iff:
  "ParseUint s = Inr w \<longleftrightarrow> is_uint64_decimal s \<and> w = of_nat (decimal_value s)"
proof (cases "ParseUint_loop 0 s")
  case (Inl err)
  then have "\<not> (list_all is_digit s \<and> (s = [] \<or> decimal_value s \<le> maxVal))"
    using ParseUint_loop_Inr [of 0 s "decimal_value s"] by (simp add: decimal_value_def)
  with Inl show ?thesis
    by (auto simp: ParseUint_def is_uint64_decimal_def maxVal_def)
next
  case (Inr m)
  then show ?thesis
    using ParseUint_loop_Inr [of 0 s m]
    by (auto simp: ParseUint_def is_uint64_decimal_def maxVal_def decimal_value_def)
qed

section \<open>Replay: the loop of GetMessagesSince is a filter\<close>

lemma since_loop_filter:
  "since_loop w buf acc = acc @ filter (newer_than w) buf"
  by (induction buf arbitrary: acc) (simp_all add: newer_than_def idOf_def split: sum.splits)

lemma GetMessagesSince_parsed:
  "ParseUint s = Inr w \<Longrightarrow> GetMessagesSince h s = filter (newer_than w) (messageBuffer h)"
  by (auto simp: GetMessagesSince_def since_loop_filter ParseUint_def)

lemma GetMessagesSince_sublist:
  "\<exists>P. GetMessagesSince h s = filter P (messageBuffer h)"
proof (cases "s \<noteq> [] \<and> (\<exists>w. ParseUint s = Inr w)")
  case True
  then show ?thesis using GetMessagesSince_parsed by blast
next
  case False
  then have "GetMessagesSince h s = filter (\<lambda>m. False) (messageBuffer h)"
    by (cases "ParseUint s") (auto simp: GetMessagesSince_def)
  then show ?thesis by blast
qed

lemma ascending_filter: "ascending ms \<Longrightarrow> ascending (filter P ms)"
  by (simp add: ascending_def list_all_iff sorted_wrt_filter)

lemma ascending_Cons_newer:
  assumes "ascending (m # ms)" "idOf m = Some i" "w < i"
  shows "filter (newer_than w) (m # ms) = m # ms"
proof -
  have "newer_than w x" if "x \<in> set (m # ms)" for x
  proof (cases "x = m")
    case True
    then show ?thesis using assms by (simp add: newer_than_def)
  next
    case False
    then have x: "x \<in> set ms" using that by simp
    then obtain j where j: "idOf x = Some j"
      using assms(1) by (auto simp: ascending_def list_all_iff)
    have "the (idOf m) < the (idOf x)"
      using assms(1) x by (auto simp: ascending_def)
    then have "i < j" using assms(2) j by simp
    then show ?thesis using assms(3) j by (simp add: newer_than_def)
  qed
  then have "\<forall>x\<in>set (m # ms). newer_than w x" by blast
  then show ?thesis by (rule filter_True)
qed

section \<open>The locked section of Broadcast and sequences of publishes\<close>

lemma stamp_fst:
  "fst (stamp d b hid h) = \<lparr>ID = FormatUint (lastID h + 1), Data = d, Targets = b, HandlerID = hid\<rparr>"
  by (simp add: stamp_def Let_def)

lemma stamp_fields:
  "clients (snd (stamp d b hid h)) = clients h"
  "config (snd (stamp d b hid h)) = config h"
  "lastID (snd (stamp d b hid h)) = lastID h + 1"
  by (simp_all add: stamp_def Let_def)

lemma stamp_buffer:
  "messageBuffer (snd (stamp d b hid h)) =
     (if 0 < HistoryReplayBuffer (config h)
      then drop (Suc (length (messageBuffer h)) - nat (HistoryReplayBuffer (config h)))
             (messageBuffer h @ [fst (stamp d b hid h)])
      else messageBuffer h @ [fst (stamp d b hid h)])"
  by (auto simp: stamp_def Let_def nat_diff_distrib' intro!: arg_cong2 [where f = drop])

lemma stamp_buffer_bound:
  "0 < HistoryReplayBuffer (config h) \<Longrightarrow>
   int (length (messageBuffer (snd (stamp d b hid h)))) \<le> HistoryReplayBuffer (config h)"
  by (simp add: stamp_buffer)

lemma hub_Broadcast: "hub (state_of (Broadcast d b hid w)) = snd (stamp d b hid (hub w))"
  by (cases "clients_loop (fst (stamp d b hid (hub w))) b (clients (snd (stamp d b hid (hub w)))) (chans w)")
     (simp_all add: Broadcast_def split_beta)

lemma Broadcast_no_clients:
  "clients (hub w) = [] \<Longrightarrow>
   Broadcast d b hid w = Returned \<lparr>hub = snd (stamp d b hid (hub w)), chans = chans w\<rparr>"
  by (simp add: Broadcast_def split_beta stamp_fields)

lemma Broadcasts_no_clients:
  "clients (hub w) = [] \<Longrightarrow>
   \<exists>w'. Broadcasts ps w = Returned w' \<and> clients (hub w') = [] \<and>
        config (hub w') = config (hub w) \<and>
        lastID (hub w') = lastID (hub w) + of_nat (length ps) \<and> chans w' = chans w"
proof (induction ps arbitrary: w)
  case Nil
  then show ?case by simp
next
  case (Cons p ps)
  obtain d b hid where p: "p = (d, b, hid)" by (cases p)
  let ?w1 = "\<lparr>hub = snd (stamp d b hid (hub w)), chans = chans w\<rparr>"
  have "clients (hub ?w1) = []" using Cons.prems by (simp add: stamp_fields)
  from Cons.IH [OF this] show ?case
    using Cons.prems by (auto simp: p Broadcast_no_clients stamp_fields)
qed

lemma records_no_clients:
  "clients (hub w) = [] \<Longrightarrow>
   map ID (records ps w) = map (\<lambda>k. FormatUint (lastID (hub w) + of_nat (Suc k))) [0..<length ps]"
proof (induction ps arbitrary: w)
  case Nil
  then show ?case by simp
next
  case (Cons p ps)
  obtain d b hid where p: "p = (d, b, hid)" by (cases p)
  let ?w1 = "\<lparr>hub = snd (stamp d b hid (hub w)), chans = chans w\<rparr>"
  have "clients (hub ?w1) = []" using Cons.prems by (simp add: stamp_fields)
  from Cons.IH [OF this] show ?case
    using Cons.prems
    by (simp add: p Broadcast_no_clients stamp_fields assigned_def stamp_fst map_upt_Suc
             add.assoc del: upt_Suc)
qed

lemma length_records_no_clients:
  "clients (hub w) = [] \<Longrightarrow> length (records ps w) = length ps"
  using records_no_clients [of w ps, THEN arg_cong, of length] by simp

lemma Broadcasts_buffer_keep:
  "clients (hub w) = [] \<Longrightarrow> HistoryReplayBuffer (config (hub w)) \<le> 0 \<Longrightarrow>
   Broadcasts ps w = Returned w' \<Longrightarrow>
   messageBuffer (hub w') = messageBuffer (hub w) @ records ps w"
proof (induction ps arbitrary: w)
  case Nil
  then show ?case by simp
next
  case (Cons p ps)
  obtain d b hid where p: "p = (d, b, hid)" by (cases p)
  let ?w1 = "\<lparr>hub = snd (stamp d b hid (hub w)), chans = chans w\<rparr>"
  have 1: "clients (hub ?w1) = []" "HistoryReplayBuffer (config (hub ?w1)) \<le> 0"
    using Cons.prems by (simp_all add: stamp_fields)
  have 2: "Broadcasts ps ?w1 = Returned w'"
    using Cons.prems by (simp add: p Broadcast_no_clients)
  show ?case
    using Cons.IH [OF 1 2] Cons.prems
    by (simp add: p Broadcast_no_clients stamp_buffer assigned_def)
qed

lemma drop_trim_append:
  "drop (length (drop (length xs - n) xs @ ys) - n) (drop (length xs - n) xs @ ys) =
   drop (length (xs @ ys) - n) (xs @ ys)"
proof (cases "length xs \<le> n")
  case True
  then show ?thesis by simp
next
  case False
  let ?k = "length xs - n"
  have k: "?k \<le> length xs" by simp
  have len: "length (drop ?k xs @ ys) - n = length ys"
    using False by simp
  have "drop ?k xs @ ys = drop ?k (xs @ ys)"
    using k by simp
  then have "drop (length ys) (drop ?k xs @ ys) = drop (length ys + ?k) (xs @ ys)"
    by (simp only: drop_drop)
  moreover have "length ys + ?k = length (xs @ ys) - n"
    using False by simp
  ultimately show ?thesis
    by (simp only: len)
qed

lemma Broadcasts_buffer_trim:
  "clients (hub w) = [] \<Longrightarrow> 0 < HistoryReplayBuffer (config (hub w)) \<Longrightarrow>
   int (length (messageBuffer (hub w))) \<le> HistoryReplayBuffer (config (hub w)) \<Longrightarrow>
   Broadcasts ps w = Returned w' \<Longrightarrow>
   messageBuffer (hub w') =
     drop (length (messageBuffer (hub w) @ records ps w) - nat (HistoryReplayBuffer (config (hub w))))
       (messageBuffer (hub w) @ records ps w)"
proof (induction ps arbitrary: w)
  case Nil
  then show ?case by simp
next
  case (Cons p ps)
  obtain d b hid where p: "p = (d, b, hid)" by (cases p)
  let ?n = "nat (HistoryReplayBuffer (config (hub w)))"
  let ?m = "fst (stamp d b hid (hub w))"
  let ?xs = "messageBuffer (hub w) @ [?m]"
  let ?w1 = "\<lparr>hub = snd (stamp d b hid (hub w)), chans = chans w\<rparr>"
  have b1: "messageBuffer (hub ?w1) = drop (length ?xs - ?n) ?xs"
    using Cons.prems(2) by (simp add: stamp_buffer)
  have 1: "clients (hub ?w1) = []" "0 < HistoryReplayBuffer (config (hub ?w1))"
    "int (length (messageBuffer (hub ?w1))) \<le> HistoryReplayBuffer (config (hub ?w1))"
    using Cons.prems stamp_buffer_bound [of "hub w" d b hid] by (simp_all add: stamp_fields)
  have 2: "Broadcasts ps ?w1 = Returned w'"
    using Cons.prems by (simp add: p Broadcast_no_clients)
  have recs: "records (p # ps) w = ?m # records ps ?w1"
    using Cons.prems(1) by (simp add: p Broadcast_no_clients assigned_def)
  have "messageBuffer (hub w') =
          drop (length (drop (length ?xs - ?n) ?xs @ records ps ?w1) - ?n)
            (drop (length ?xs - ?n) ?xs @ records ps ?w1)"
    using Cons.IH [OF 1 2] by (simp only: b1) (simp add: stamp_fields)
  also have "\<dots> = drop (length (?xs @ records ps ?w1) - ?n) (?xs @ records ps ?w1)"
    by (rule drop_trim_append)
  also have "?xs @ records ps ?w1 = messageBuffer (hub w) @ records (p # ps) w"
    by (simp only: recs append_assoc append_Cons append_Nil)
  finally show ?case .
qed

lemma unat_of_nat_64: "k < 2 ^ 64 \<Longrightarrow> unat (of_nat k :: 64 word) = k"
  by (simp add: unat_of_nat)

lemma idOf_records_fresh:
  "clients (hub w) = [] \<Longrightarrow> lastID (hub w) = 0 \<Longrightarrow>
   map idOf (records ps w) = map (\<lambda>k. Some (of_nat (Suc k))) [0..<length ps]"
proof -
  assume a: "clients (hub w) = []" "lastID (hub w) = 0"
  have "map idOf (records ps w) = map (\<lambda>s. case ParseUint s of Inl err \<Rightarrow> None | Inr i \<Rightarrow> Some i) (map ID (records ps w))"
    by (simp add: idOf_def comp_def)
  also have "\<dots> = map (\<lambda>k. Some (of_nat (Suc k))) [0..<length ps]"
    using a by (simp only: records_no_clients) (simp add: comp_def ParseUint_FormatUint)
  finally show ?thesis .
qed

lemma ascending_map:
  "map idOf ms = map (\<lambda>k. Some (of_nat (Suc k) :: 64 word)) [0..<n] \<Longrightarrow> n < 2 ^ 64 \<Longrightarrow> ascending ms"
proof -
  assume eq: "map idOf ms = map (\<lambda>k. Some (of_nat (Suc k) :: 64 word)) [0..<n]" and n: "n < 2 ^ 64"
  have all: "list_all (\<lambda>m. idOf m \<noteq> None) ms"
  proof -
    have "None \<notin> set (map idOf ms)" by (simp only: eq) auto
    then have "idOf m \<noteq> None" if "m \<in> set ms" for m
      using that by (metis image_eqI set_map)
    then show ?thesis by (simp add: list_all_iff)
  qed
  have "sorted_wrt (\<lambda>i j. (of_nat (Suc i) :: 64 word) < of_nat (Suc j)) [0..<n]"
  proof (rule sorted_wrt_mono_rel [of _ "(<)"])
    fix i j assume "i \<in> set [0..<n]" "j \<in> set [0..<n]" "i < j"
    then have "Suc i < 2 ^ 64" "Suc j < 2 ^ 64" "Suc i < Suc j" using n by auto
    then show "(of_nat (Suc i) :: 64 word) < of_nat (Suc j)"
      by (simp only: word_less_nat_alt unat_of_nat_64)
  next
    show "sorted_wrt (<) [0..<n]" by (rule sorted_wrt_upt)
  qed
  then have "sorted_wrt (\<lambda>x y. the x < the y) (map (\<lambda>k. Some (of_nat (Suc k) :: 64 word)) [0..<n])"
    by (simp add: sorted_wrt_map)
  then have "sorted_wrt (\<lambda>x y. the x < the y) (map idOf ms)"
    by (simp only: eq)
  then have "sorted_wrt (\<lambda>a b. the (idOf a) < the (idOf b)) ms"
    by (simp add: sorted_wrt_map)
  with all show ?thesis by (simp add: ascending_def)
qed

lemma ascending_drop: "ascending ms \<Longrightarrow> ascending (drop k ms)"
  by (auto simp: ascending_def list_all_iff dest: in_set_dropD)

lemma FormatUint_of_nat: "k < 2 ^ 64 \<Longrightarrow> FormatUint (of_nat k) = dec k"
  by (simp add: FormatUint_def unat_of_nat_64)

lemma IDs_records_fresh:
  "clients (hub w) = [] \<Longrightarrow> lastID (hub w) = 0 \<Longrightarrow> length ps < 2 ^ 64 \<Longrightarrow>
   map ID (records ps w) = map dec [1..<Suc (length ps)]"
proof -
  assume a: "clients (hub w) = []" "lastID (hub w) = 0" "length ps < 2 ^ 64"
  have "map ID (records ps w) = map (\<lambda>k. FormatUint (of_nat (Suc k))) [0..<length ps]"
    using a by (simp add: records_no_clients)
  also have "\<dots> = map (\<lambda>k. dec (Suc k)) [0..<length ps]"
    using a(3) by (intro map_cong refl FormatUint_of_nat) auto
  also have "\<dots> = map dec (map Suc [0..<length ps])"
    by (simp add: comp_def)
  also have "map Suc [0..<length ps] = [1..<Suc (length ps)]"
    by (simp only: map_Suc_upt One_nat_def)
  finally show ?thesis .
qed

lemma distinct_IDs:
  "ascending ms \<Longrightarrow> distinct (map ID ms)"
proof -
  assume asc: "ascending ms"
  have "sorted_wrt (\<lambda>a b. ID a \<noteq> ID b) ms"
  proof (rule sorted_wrt_mono_rel [of _ "\<lambda>a b. the (idOf a) < the (idOf b)"])
    fix a b assume "the (idOf a) < the (idOf b)"
    then show "ID a \<noteq> ID b" by (auto simp: idOf_def)
  next
    show "sorted_wrt (\<lambda>a b. the (idOf a) < the (idOf b)) ms"
      using asc by (simp add: ascending_def)
  qed
  then have "sorted_wrt (\<noteq>) (map ID ms)"
    by (simp add: sorted_wrt_map)
  then show ?thesis
    by (simp add: distinct_conv_nth sorted_wrt_iff_nth_less nat_neq_iff) metis
qed

lemma nth_ID_records:
  "clients (hub w) = [] \<Longrightarrow> k < length ps \<Longrightarrow>
   map ID (records ps w) ! k = FormatUint (lastID (hub w) + of_nat (Suc k))"
  by (simp only: records_no_clients) simp

lemma last_two_of_upt:
  "n = Suc (Suc m) \<Longrightarrow> drop m (map f [0..<n]) = [f m, f (Suc m)]"
  by (simp add: drop_map)

lemma dec_max: "dec 18446744073709551615 = ''18446744073709551615''"
  by (simp add: dec.simps digit_char_def)

section \<open>The fan-out loops\<close>

lemma grows_refl: "grows H H"
  by (auto simp: grows_def split: option.splits)

lemma grows_trans: "grows H H' \<Longrightarrow> grows H' H'' \<Longrightarrow> grows H H''"
  unfolding grows_def
proof (intro allI)
  fix a
  assume 1: "\<forall>a. case H a of None \<Rightarrow> H' a = None
      | Some q \<Rightarrow> \<exists>q'. H' a = Some q' \<and> closed q' = closed q \<and> (capacity q \<le> length (queue q) \<longrightarrow> q' = q)"
    and 2: "\<forall>a. case H' a of None \<Rightarrow> H'' a = None
      | Some q \<Rightarrow> \<exists>q'. H'' a = Some q' \<and> closed q' = closed q \<and> (capacity q \<le> length (queue q) \<longrightarrow> q' = q)"
  show "case H a of None \<Rightarrow> H'' a = None
      | Some q \<Rightarrow> \<exists>q'. H'' a = Some q' \<and> closed q' = closed q \<and> (capacity q \<le> length (queue q) \<longrightarrow> q' = q)"
    using 1 [rule_format, of a] 2 [rule_format, of a]
    by (cases "H a"; cases "H' a") auto
qed

lemma grows_chan_send: "grows H (state_of (chan_send a msg H))"
  by (auto simp: chan_send_def grows_def split: option.splits)

lemma channels_loop_member:
  "channels_loop msg a t chs H = (if t \<in> set chs then chan_send a msg H else Returned H)"
  by (induction chs) auto

lemma grows_targets_loop: "grows H (state_of (targets_loop msg c ts H))"
proof (induction ts arbitrary: H)
  case Nil
  show ?case by (simp add: grows_refl)
next
  case (Cons t ts)
  show ?case
  proof (cases "t \<in> set (Channels c)")
    case False
    then show ?thesis using Cons.IH by (simp add: channels_loop_member)
  next
    case True
    show ?thesis
    proof (cases "chan_send (Send c) msg H")
      case (Returned H')
      then have "grows H H'" using grows_chan_send [of H "Send c" msg] by simp
      then show ?thesis
        using True Returned Cons.IH [of H'] by (auto simp: channels_loop_member intro: grows_trans)
    next
      case (Blocked H')
      then show ?thesis
        using True grows_chan_send [of H "Send c" msg] by (simp add: channels_loop_member)
    next
      case (Panicked H')
      then show ?thesis
        using True grows_chan_send [of H "Send c" msg] by (simp add: channels_loop_member)
    qed
  qed
qed

lemma grows_clients_loop: "grows H (state_of (clients_loop msg b cs H))"
proof (induction cs arbitrary: H)
  case Nil
  show ?case by (simp add: grows_refl)
next
  case (Cons kc cs)
  obtain k c where kc: "kc = (k, c)" by (cases kc)
  show ?case
  proof (cases "targets_loop msg c b H")
    case (Returned H')
    then have "grows H H'" using grows_targets_loop [of H msg c b] by simp
    then show ?thesis
      using Returned Cons.IH [of H'] by (auto simp: kc intro: grows_trans)
  next
    case (Blocked H')
    then show ?thesis using grows_targets_loop [of H msg c b] by (simp add: kc)
  next
    case (Panicked H')
    then show ?thesis using grows_targets_loop [of H msg c b] by (simp add: kc)
  qed
qed

lemma none_closed_iff:
  "none_closed cs H \<longleftrightarrow> (\<forall>(k, c) \<in> set cs. \<forall>q. H (Send c) = Some q \<longrightarrow> \<not> closed q)"
  by (auto simp: none_closed_def list_all_iff split: option.splits)

lemma none_closed_grows: "none_closed cs H \<Longrightarrow> grows H H' \<Longrightarrow> none_closed cs H'"
  unfolding none_closed_iff grows_def
  by (fastforce split: option.splits)

lemma targets_loop_no_panic:
  "\<forall>q. H (Send c) = Some q \<longrightarrow> \<not> closed q \<Longrightarrow> targets_loop msg c ts H \<noteq> Panicked H'"
proof (induction ts arbitrary: H)
  case Nil
  show ?case by simp
next
  case (Cons t ts)
  show ?case
  proof (cases "t \<in> set (Channels c)")
    case False
    then show ?thesis using Cons by (simp add: channels_loop_member)
  next
    case True
    show ?thesis
    proof (cases "chan_send (Send c) msg H")
      case (Returned H1)
      then have "grows H H1" using grows_chan_send [of H "Send c" msg] by simp
      then have "\<forall>q. H1 (Send c) = Some q \<longrightarrow> \<not> closed q"
        using Cons.prems unfolding grows_def by (fastforce split: option.splits)
      then show ?thesis
        using True Returned Cons.IH [of H1] by (simp add: channels_loop_member)
    next
      case (Blocked H1)
      then show ?thesis using True by (simp add: channels_loop_member)
    next
      case (Panicked H1)
      then show ?thesis using Cons.prems
        by (auto simp: chan_send_def split: option.splits if_splits)
    qed
  qed
qed

lemma clients_loop_no_panic:
  "none_closed cs H \<Longrightarrow> clients_loop msg b cs H \<noteq> Panicked H'"
proof (induction cs arbitrary: H)
  case Nil
  show ?case by simp
next
  case (Cons kc cs)
  obtain k c where kc: "kc = (k, c)" by (cases kc)
  have open_c: "\<forall>q. H (Send c) = Some q \<longrightarrow> \<not> closed q"
    using Cons.prems by (simp add: none_closed_iff kc)
  show ?case
  proof (cases "targets_loop msg c b H")
    case (Returned H1)
    then have "grows H H1" using grows_targets_loop [of H msg c b] by simp
    then have "none_closed cs H1"
      using Cons.prems none_closed_grows [of cs H H1] by (simp add: none_closed_iff)
    then show ?thesis using Returned Cons.IH [of H1] by (simp add: kc)
  next
    case (Blocked H1)
    then show ?thesis by (simp add: kc)
  next
    case (Panicked H1)
    then show ?thesis using open_c targets_loop_no_panic [of H c msg b H1] by blast
  qed
qed

lemma targets_loop_full:
  "t \<in> set ts \<Longrightarrow> t \<in> set (Channels c) \<Longrightarrow> H (Send c) = Some q \<Longrightarrow> \<not> closed q \<Longrightarrow>
   capacity q \<le> length (queue q) \<Longrightarrow> targets_loop msg c ts H = Blocked H"
proof (induction ts)
  case Nil
  then show ?case by simp
next
  case (Cons t' ts)
  show ?case
  proof (cases "t' \<in> set (Channels c)")
    case True
    then show ?thesis using Cons.prems by (simp add: channels_loop_member chan_send_def)
  next
    case False
    then have "t \<in> set ts" using Cons.prems by auto
    then show ?thesis using False Cons by (simp add: channels_loop_member)
  qed
qed

lemma clients_loop_full:
  "(k, c) \<in> set cs \<Longrightarrow> t \<in> set b \<Longrightarrow> t \<in> set (Channels c) \<Longrightarrow> H (Send c) = Some q \<Longrightarrow>
   capacity q \<le> length (queue q) \<Longrightarrow> none_closed cs H \<Longrightarrow>
   \<exists>H'. clients_loop msg b cs H = Blocked H' \<and> H' (Send c) = Some q"
proof (induction cs arbitrary: H)
  case Nil
  then show ?case by simp
next
  case (Cons kc cs)
  obtain k1 c1 where kc: "kc = (k1, c1)" by (cases kc)
  have not_closed: "\<not> closed q"
    using Cons.prems by (auto simp: none_closed_iff)
  have g: "grows H (state_of (targets_loop msg c1 b H))"
    by (rule grows_targets_loop)
  show ?case
  proof (cases "targets_loop msg c1 b H")
    case (Panicked H1)
    have "\<forall>q. H (Send c1) = Some q \<longrightarrow> \<not> closed q"
      using Cons.prems(6) by (simp add: none_closed_iff kc)
    then show ?thesis using Panicked targets_loop_no_panic [of H c1 msg b H1] by blast
  next
    case (Blocked H1)
    then have "grows H H1" using g by simp
    then have "H1 (Send c) = Some q"
      using Cons.prems(4,5) unfolding grows_def by (fastforce split: option.splits)
    then show ?thesis using Blocked by (simp add: kc)
  next
    case (Returned H1)
    then have g1: "grows H H1" using g by simp
    then have q1: "H1 (Send c) = Some q"
      using Cons.prems(4,5) unfolding grows_def by (fastforce split: option.splits)
    have "c1 \<noteq> c"
      using targets_loop_full [of t b c H q msg] Cons.prems(2,3,4,5) not_closed Returned
      by auto
    then have mem: "(k, c) \<in> set cs" using Cons.prems(1) by (auto simp: kc)
    have "none_closed cs H1"
      using Cons.prems(6) g1 none_closed_grows [of "kc # cs" H H1] by (simp add: none_closed_iff)
    from Cons.IH [OF mem Cons.prems(2,3) q1 Cons.prems(5) this] Returned
    show ?thesis by (simp add: kc)
  qed
qed

lemma targets_loop_copies:
  "H (Send c) = Some q \<Longrightarrow> \<not> closed q \<Longrightarrow>
   length (queue q) + length (filter (\<lambda>t. t \<in> set (Channels c)) ts) \<le> capacity q \<Longrightarrow>
   targets_loop msg c ts H =
     Returned (H(Send c \<mapsto> q\<lparr>queue := queue q @ replicate (length (filter (\<lambda>t. t \<in> set (Channels c)) ts)) msg\<rparr>))"
proof (induction ts arbitrary: H q)
  case Nil
  then show ?case by (simp add: map_upd_triv)
next
  case (Cons t ts)
  show ?case
  proof (cases "t \<in> set (Channels c)")
    case False
    then show ?thesis using Cons by (simp add: channels_loop_member)
  next
    case True
    let ?q1 = "q\<lparr>queue := queue q @ [msg]\<rparr>"
    let ?H1 = "H(Send c \<mapsto> ?q1)"
    have send: "chan_send (Send c) msg H = Returned ?H1"
      using Cons.prems True by (simp add: chan_send_def)
    let ?n = "length (filter (\<lambda>t. t \<in> set (Channels c)) ts)"
    have "targets_loop msg c (t # ts) H = targets_loop msg c ts ?H1"
      using True send by (simp add: channels_loop_member)
    also have "\<dots> = Returned (?H1(Send c \<mapsto> ?q1\<lparr>queue := queue ?q1 @ replicate ?n msg\<rparr>))"
      using Cons.prems True by (intro Cons.IH) simp_all
    also have "?H1(Send c \<mapsto> ?q1\<lparr>queue := queue ?q1 @ replicate ?n msg\<rparr>) =
        H(Send c \<mapsto> q\<lparr>queue := queue q @ replicate (Suc ?n) msg\<rparr>)"
      by simp
    finally show ?thesis
      using True by simp
  qed
qed

section \<open>unregister\<close>

lemma unregister_twice:
  "unregister c w = Returned w' \<Longrightarrow> map_of (clients (hub w')) (clientID c) = None"
  by (cases "map_of (clients (hub w)) (clientID c)"; cases "chan_close (Send c) (chans w)")
     (auto simp: unregister_def AList.delete_conv)

section \<open>Registered queues stay open\<close>

lemma well_formed_NewHub: "well_formed \<lparr>hub = NewHub c, chans = H\<rparr>"
  by (simp add: well_formed_def NewHub_def)

lemma update_new_key: "map_of al k = None \<Longrightarrow> AList.update k v al = al @ [(k, v)]"
  by (induction al) (auto split: if_splits)

lemma well_formed_register:
  assumes "well_formed w" and "map_of (clients (hub w)) (clientID c) = None"
    and "\<forall>(k, c') \<in> set (clients (hub w)). Send c' \<noteq> Send c"
    and "chans w (Send c) = Some q" and "\<not> closed q"
  shows "well_formed (register c w)"
  using assms
  by (auto simp: well_formed_def register_def update_new_key list_all_iff)

lemma grows_open:
  "grows H H' \<Longrightarrow> (case H a of None \<Rightarrow> False | Some q \<Rightarrow> \<not> closed q) \<Longrightarrow>
   (case H' a of None \<Rightarrow> False | Some q \<Rightarrow> \<not> closed q)"
  unfolding grows_def by (fastforce split: option.splits)

lemma well_formed_Broadcast:
  assumes "well_formed w"
  shows "well_formed (state_of (Broadcast data broadcast handlerID w))"
proof -
  let ?msg = "fst (stamp data broadcast handlerID (hub w))"
  let ?h = "snd (stamp data broadcast handlerID (hub w))"
  let ?out = "clients_loop ?msg broadcast (clients (hub w)) (chans w)"
  have st: "state_of (Broadcast data broadcast handlerID w) = \<lparr>hub = ?h, chans = state_of ?out\<rparr>"
    by (cases ?out) (simp_all add: Broadcast_def split_beta stamp_fields)
  have g: "grows (chans w) (state_of ?out)"
    by (rule grows_clients_loop)
  show ?thesis
    using assms grows_open [OF g]
    by (auto simp: st well_formed_def stamp_fields list_all_iff)
qed

lemma well_formed_unregister:
  assumes "well_formed w" and "map_of (clients (hub w)) (clientID c) = Some c"
  shows "\<exists>w' q. chans w (Send c) = Some q \<and> \<not> closed q \<and>
           unregister c w = Returned w' \<and> well_formed w' \<and>
           chans w' = (chans w)(Send c \<mapsto> q\<lparr>closed := True\<rparr>)"
proof -
  have mem: "(clientID c, c) \<in> set (clients (hub w))"
    using assms(2) by (rule map_of_SomeD)
  then obtain q where q: "chans w (Send c) = Some q" "\<not> closed q"
    using assms(1) by (auto simp: well_formed_def list_all_iff split: option.splits)
  let ?w' = "\<lparr>hub = (hub w)\<lparr>clients := AList.delete (clientID c) (clients (hub w))\<rparr>,
              chans = (chans w)(Send c \<mapsto> q\<lparr>closed := True\<rparr>)\<rparr>"
  have ret: "unregister c w = Returned ?w'"
    using assms(2) q by (simp add: unregister_def chan_close_def)
  have inj: "inj_on (\<lambda>(k, c). Send c) (set (clients (hub w)))"
    using assms(1) by (simp add: well_formed_def distinct_map)
  have other: "Send c' \<noteq> Send c" if "(k', c') \<in> set (clients (hub w))" "k' \<noteq> clientID c" for k' c'
    using inj_onD [OF inj _ that(1) mem] that(2) by auto
  have "well_formed ?w'"
    using assms(1) other
    by (auto simp: well_formed_def AList.delete_eq list_all_iff distinct_map_filter)
  then show ?thesis using q ret by auto
qed

lemma well_formed_none_closed:
  "well_formed w \<Longrightarrow> none_closed (clients (hub w)) (chans w)"
  by (auto simp: well_formed_def none_closed_def list_all_iff split: option.splits)

section \<open>The backoff recurrence\<close>

lemma double_then_cap:
  fixes c d p :: int
  assumes "0 \<le> c" and "1 \<le> p"
  shows "min (min (2 * d) c * p) c = min (d * (2 * p)) c"
proof (cases "2 * d \<le> c")
  case True
  then show ?thesis by (simp add: min_def mult.assoc mult.left_commute mult.commute)
next
  case False
  have cp: "c \<le> c * p"
    using mult_left_mono [of 1 p c] assms by simp
  have "2 * d \<le> 2 * d * p"
    using mult_left_mono [of 1 p "2 * d"] assms False by simp
  then have "c < d * (2 * p)"
    using False by (simp add: mult.assoc mult.left_commute mult.commute)
  then show ?thesis
    using False cp by (simp add: min_def)
qed

lemma kth_wait_general:
  "0 \<le> MaxRetryDelay cfg \<Longrightarrow> phase s = Open \<or> phase s = Connecting \<Longrightarrow>
   MaxReconnectAttempts cfg = 0 \<or> attemptCount s + int k < MaxReconnectAttempts cfg \<Longrightarrow>
   kth_wait cfg s (Suc k) = Some (min (currentDelay s * 2 ^ Suc k) (MaxRetryDelay cfg))"
proof (induction k arbitrary: s)
  case 0
  then show ?case
    by (auto simp: stream_lost_def backoff_wait_def mult.commute)
next
  case (Suc k)
  let ?s1 = "backoff_elapsed (stream_lost cfg s)"
  have s1: "?s1 = s\<lparr>phase := Connecting, attemptCount := attemptCount s + 1,
                     currentDelay := min (2 * currentDelay s) (MaxRetryDelay cfg)\<rparr>"
    using Suc.prems by (auto simp: stream_lost_def backoff_elapsed_def)
  have "kth_wait cfg ?s1 (Suc k) = Some (min (currentDelay ?s1 * 2 ^ Suc k) (MaxRetryDelay cfg))"
    using Suc.prems by (intro Suc.IH) (auto simp: s1)
  moreover have "(1::int) \<le> 2 ^ Suc k"
    by (rule one_le_power) simp
  then have "min (min (2 * currentDelay s) (MaxRetryDelay cfg) * 2 ^ Suc k) (MaxRetryDelay cfg)
      = min (currentDelay s * (2 * 2 ^ Suc k)) (MaxRetryDelay cfg)"
    using Suc.prems(1) by (intro double_then_cap)
  ultimately show ?case by (simp add: s1)
qed

section \<open>Evaluation of the concrete hubs\<close>

lemmas run_simps =
  Broadcast_def stamp_def NewHub_def example_config_def fresh_world_def five_publishes_def
  FormatUint_def dec.simps digit_char_def chan_send_def assigned_def Let_def
  subscriber_def one_subscriber_def register_def

lemmas parse_simps =
  ParseUint_def is_digit_def digit_val_def cutoff_def maxVal_def idOf_def newer_than_def

lemma five_published:
  "Broadcasts five_publishes (fresh_world (example_config 1 3)) =
     Returned \<lparr>hub = \<lparr>clients = [],
                      messageBuffer =
                        [\<lparr>ID = ''3'', Data = [3], Targets = [''x''], HandlerID = 0\<rparr>,
                         \<lparr>ID = ''4'', Data = [4], Targets = [''x''], HandlerID = 0\<rparr>,
                         \<lparr>ID = ''5'', Data = [5], Targets = [''x''], HandlerID = 0\<rparr>],
                      config = example_config 1 3, lastID = 5\<rparr>,
               chans = Map.empty\<rparr>"
  by (simp add: run_simps)

lemma five_records:
  "map ID (records five_publishes (fresh_world (example_config 1 3))) =
     [''1'', ''2'', ''3'', ''4'', ''5'']"
  by (simp add: run_simps)

section \<open>The claims\<close>

text \<open>
  Claim C1, as the code has it. When the outbound queue of a registered subscriber that
  follows one of the targets is full at publish time (and no registered queue is
  closed), \<open>Broadcast\<close> does not drop the record: the call blocks on the send
  \<open>client.Send <- msg\<close>. It has by then advanced the counter and appended the record to
  the history; the full queue is left exactly as it was, and the hub has no
  dropped-message counter.
\<close>

theorem Broadcast_blocks_on_full_queue:
  assumes "(k, c) \<in> set (clients (hub w))"
    and "t \<in> set broadcast" and "t \<in> set (Channels c)"
    and "chans w (Send c) = Some q" and "capacity q \<le> length (queue q)"
    and "none_closed (clients (hub w)) (chans w)"
  shows "\<exists>w'. Broadcast data broadcast handlerID w = Blocked w' \<and>
              hub w' = snd (stamp data broadcast handlerID (hub w)) \<and>
              chans w' (Send c) = Some q"
proof -
  let ?msg = "fst (stamp data broadcast handlerID (hub w))"
  let ?h = "snd (stamp data broadcast handlerID (hub w))"
  obtain H' where "clients_loop ?msg broadcast (clients (hub w)) (chans w) = Blocked H'"
    and "H' (Send c) = Some q"
    using clients_loop_full [OF assms, of ?msg] by blast
  then have "Broadcast data broadcast handlerID w = Blocked \<lparr>hub = ?h, chans = H'\<rparr> \<and>
      hub \<lparr>hub = ?h, chans = H'\<rparr> = ?h \<and> chans \<lparr>hub = ?h, chans = H'\<rparr> (Send c) = Some q"
    by (simp add: Broadcast_def split_beta stamp_fields)
  then show ?thesis by blast
qed

text \<open>
  The scenario of the claim: queue capacity 1, one record already queued and not
  drained. The second publish blocks.
\<close>

theorem Broadcast_blocks_on_full_queue_witness:
  "(''c1'', subscriber [''x'']) \<in> set (clients (hub published_once)) \<and>
   ''x'' \<in> set [''x''] \<and> ''x'' \<in> set (Channels (subscriber [''x''])) \<and>
   chans published_once (Send (subscriber [''x''])) =
     Some \<lparr>queue = [first_record], capacity = 1, closed = False\<rparr> \<and>
   capacity \<lparr>queue = [first_record], capacity = 1, closed = False\<rparr>
     \<le> length (queue \<lparr>queue = [first_record], capacity = 1, closed = False\<rparr>) \<and>
   none_closed (clients (hub published_once)) (chans published_once) \<and>
   (\<exists>w'. Broadcast [2] [''x''] 0 published_once = Blocked w' \<and>
         hub w' = snd (stamp [2] [''x''] 0 (hub published_once)) \<and>
         chans w' (Send (subscriber [''x''])) =
           Some \<lparr>queue = [first_record], capacity = 1, closed = False\<rparr>)"
  using Broadcast_blocks_on_full_queue [of "''c1''" "subscriber [''x'']" published_once "''x''"
      "[''x'']" "\<lparr>queue = [first_record], capacity = 1, closed = False\<rparr>" "[2]" 0]
  by (simp add: published_once_def subscriber_def none_closed_def)

text \<open>
  Claim C1 as stated fails: with queue capacity 1 and two publishes to a followed
  channel, the first call returns with the record queued, and the second call does not
  return; it is blocked with the queue unchanged.
\<close>

theorem Broadcast_second_publish_blocks:
  "Broadcast [1] [''x''] 0 (one_subscriber 1 [''x'']) = Returned published_once \<and>
   Broadcast [2] [''x''] 0 published_once =
     Blocked (published_once\<lparr>hub := snd (stamp [2] [''x''] 0 (hub published_once))\<rparr>)"
  by (simp add: run_simps first_record_def published_once_def)

text \<open>
  Claim C2 fails on the code at a subscriber of two channels that are both targets: the
  \<open>break\<close> leaves the loop over the subscriber's channels only, the loop over the
  targets goes on, and the record is sent once per matching target. With channels
  \<open>A, B\<close>, targets \<open>A, B\<close> and room in the queue, the call returns and the queue holds the
  record with id 1 twice.
\<close>

theorem Broadcast_two_matching_targets:
  "returned (Broadcast [1] [''A'', ''B''] 0 (one_subscriber 10 [''A'', ''B''])) \<and>
   map_option (\<lambda>q. map ID (queue q))
     (chans (state_of (Broadcast [1] [''A'', ''B''] 0 (one_subscriber 10 [''A'', ''B'']))) 0) =
   Some [''1'', ''1'']"
  by (simp add: run_simps)

text \<open>
  Claim C3, as the code has it. When \<open>HistoryReplayBuffer\<close> is 0 (unset) or negative the
  history is never trimmed: after any sequence of publishes on a fresh hub every call has
  returned, the buffer holds every record published, in order, and replay with a
  watermark that parses returns exactly the records whose id is greater.
\<close>

theorem history_unbounded_when_disabled:
  assumes "HistoryReplayBuffer c \<le> 0" and "hub w = NewHub c"
  shows "returned (Broadcasts ps w) \<and>
         messageBuffer (hub (state_of (Broadcasts ps w))) = records ps w \<and>
         length (records ps w) = length ps \<and>
         (ParseUint s = Inr i \<longrightarrow>
            GetMessagesSince (hub (state_of (Broadcasts ps w))) s =
              filter (newer_than i) (records ps w))"
proof -
  have nc: "clients (hub w) = []" and cf: "HistoryReplayBuffer (config (hub w)) \<le> 0"
    and mb: "messageBuffer (hub w) = []"
    using assms by (simp_all add: NewHub_def)
  obtain w' where w': "Broadcasts ps w = Returned w'"
    using Broadcasts_no_clients [OF nc, of ps] by blast
  have buf: "messageBuffer (hub w') = records ps w"
    using Broadcasts_buffer_keep [OF nc cf w'] mb by simp
  show ?thesis
    using w' buf length_records_no_clients [OF nc, of ps]
    by (simp add: GetMessagesSince_parsed)
qed

theorem history_unbounded_when_disabled_witness:
  "HistoryReplayBuffer (example_config 1 0) \<le> 0 \<and>
   hub (fresh_world (example_config 1 0)) = NewHub (example_config 1 0) \<and>
   returned (Broadcasts five_publishes (fresh_world (example_config 1 0))) \<and>
   messageBuffer (hub (state_of (Broadcasts five_publishes (fresh_world (example_config 1 0))))) =
     records five_publishes (fresh_world (example_config 1 0)) \<and>
   length (records five_publishes (fresh_world (example_config 1 0))) = length five_publishes \<and>
   ParseUint ''2'' = Inr 2 \<and>
   GetMessagesSince (hub (state_of (Broadcasts five_publishes (fresh_world (example_config 1 0)))))
       ''2'' =
     filter (newer_than 2) (records five_publishes (fresh_world (example_config 1 0)))"
proof -
  have p: "ParseUint ''2'' = Inr 2"
    by (simp add: parse_simps)
  have c: "HistoryReplayBuffer (example_config 1 0) \<le> 0"
    by (simp add: example_config_def)
  have h: "hub (fresh_world (example_config 1 0)) = NewHub (example_config 1 0)"
    by (simp add: fresh_world_def)
  show ?thesis
    using history_unbounded_when_disabled [OF c h, of five_publishes "''2''" 2] p c h
    by simp
qed

text \<open>
  Claim C3 as stated fails: with \<open>HistoryReplayBuffer = 0\<close> and two publishes, replay
  with watermark 1 returns the record with id 2.
\<close>

theorem history_replay_when_disabled:
  "HistoryReplayBuffer (example_config 1 0) = 0 \<and>
   map ID (GetMessagesSince
      (hub (state_of (Broadcasts [([1], [''x''], 0), ([2], [''x''], 0)]
                        (fresh_world (example_config 1 0)))))
      ''1'') = [''2'']"
  by (simp add: run_simps GetMessagesSince_def parse_simps)

text \<open>
  Claim C4, as the code has it. For every hub and every watermark that parses as an
  unsigned 64-bit decimal \<open>w\<close> (the watermark \<open>0\<close> included), \<open>GetMessagesSince\<close>
  returns exactly the buffered records with id strictly greater than \<open>w\<close>, in buffer
  order, so in ascending id order when the buffer is ascending; for the absent (empty)
  watermark it returns nothing. Zero is not treated as "no replay": it is below every
  positive id, so replay with \<open>0\<close> returns the whole buffer of a hub whose ids are positive.
\<close>

theorem GetMessagesSince_newer:
  "GetMessagesSince h [] = [] \<and>
   (ParseUint s = Inr w \<longrightarrow> GetMessagesSince h s = filter (newer_than w) (messageBuffer h)) \<and>
   (ascending (messageBuffer h) \<longrightarrow> ascending (GetMessagesSince h s))"
proof (intro conjI impI)
  show "GetMessagesSince h [] = []"
    by (simp add: GetMessagesSince_def)
  show "GetMessagesSince h s = filter (newer_than w) (messageBuffer h)" if "ParseUint s = Inr w"
    using that by (rule GetMessagesSince_parsed)
  show "ascending (GetMessagesSince h s)" if "ascending (messageBuffer h)"
    using that GetMessagesSince_sublist [of h s] ascending_filter by auto
qed

theorem GetMessagesSince_newer_witness:
  "GetMessagesSince (hub (state_of (Broadcasts five_publishes (fresh_world (example_config 1 3)))))
     [] = [] \<and>
   ParseUint ''4'' = Inr 4 \<and>
   GetMessagesSince (hub (state_of (Broadcasts five_publishes (fresh_world (example_config 1 3)))))
     ''4'' =
     filter (newer_than 4)
       (messageBuffer (hub (state_of (Broadcasts five_publishes (fresh_world (example_config 1 3)))))) \<and>
   ascending
     (messageBuffer (hub (state_of (Broadcasts five_publishes (fresh_world (example_config 1 3)))))) \<and>
   ascending
     (GetMessagesSince (hub (state_of (Broadcasts five_publishes (fresh_world (example_config 1 3)))))
        ''4'')"
proof -
  let ?h = "hub (state_of (Broadcasts five_publishes (fresh_world (example_config 1 3))))"
  have p: "ParseUint ''4'' = Inr 4"
    by (simp add: parse_simps)
  have a: "ascending (messageBuffer ?h)"
    by (simp add: five_published ascending_def parse_simps)
  show ?thesis
    using GetMessagesSince_newer [of ?h "''4''" 4] p a by blast
qed

text \<open>
  Claim C4 as stated fails at the watermark \<open>0\<close>: after five publishes with history
  capacity 3, replay with \<open>0\<close> returns the three buffered records, not nothing.
\<close>

theorem GetMessagesSince_zero_replays_all:
  "map ID (GetMessagesSince
      (hub (state_of (Broadcasts five_publishes (fresh_world (example_config 1 3))))) ''0'') =
   [''3'', ''4'', ''5'']"
  by (simp add: five_published GetMessagesSince_def parse_simps)

text \<open>
  Claim C5, as the code has it. For every hub whose buffer is non-empty and ascending:
  if the watermark parses and is strictly smaller than the oldest buffered id, the call
  returns the whole buffer. It returns no error and no sign that the replay window was
  exceeded, but it does not return empty.
\<close>

theorem GetMessagesSince_before_window:
  assumes "messageBuffer h = m # ms" and "ascending (m # ms)" and "idOf m = Some i"
    and "ParseUint s = Inr w" and "w < i"
  shows "GetMessagesSince h s = messageBuffer h"
  using assms by (simp only: GetMessagesSince_parsed ascending_Cons_newer)

theorem GetMessagesSince_before_window_witness:
  "messageBuffer (hub (state_of (Broadcasts five_publishes (fresh_world (example_config 1 3))))) =
     \<lparr>ID = ''3'', Data = [3], Targets = [''x''], HandlerID = 0\<rparr> #
     [\<lparr>ID = ''4'', Data = [4], Targets = [''x''], HandlerID = 0\<rparr>,
      \<lparr>ID = ''5'', Data = [5], Targets = [''x''], HandlerID = 0\<rparr>] \<and>
   ascending
     (\<lparr>ID = ''3'', Data = [3], Targets = [''x''], HandlerID = 0\<rparr> #
      [\<lparr>ID = ''4'', Data = [4], Targets = [''x''], HandlerID = 0\<rparr>,
       \<lparr>ID = ''5'', Data = [5], Targets = [''x''], HandlerID = 0\<rparr>]) \<and>
   idOf \<lparr>ID = ''3'', Data = [3], Targets = [''x''], HandlerID = 0\<rparr> = Some 3 \<and>
   ParseUint ''2'' = Inr 2 \<and> (2 :: 64 word) < 3 \<and>
   GetMessagesSince (hub (state_of (Broadcasts five_publishes (fresh_world (example_config 1 3)))))
     ''2'' =
   messageBuffer (hub (state_of (Broadcasts five_publishes (fresh_world (example_config 1 3)))))"
proof -
  let ?h = "hub (state_of (Broadcasts five_publishes (fresh_world (example_config 1 3))))"
  let ?m = "\<lparr>ID = ''3'', Data = [3], Targets = [''x''], HandlerID = 0\<rparr>"
  let ?ms = "[\<lparr>ID = ''4'', Data = [4], Targets = [''x''], HandlerID = 0\<rparr>,
              \<lparr>ID = ''5'', Data = [5], Targets = [''x''], HandlerID = 0\<rparr>]"
  have b: "messageBuffer ?h = ?m # ?ms"
    by (simp add: five_published)
  have a: "ascending (?m # ?ms)"
    by (simp add: ascending_def parse_simps)
  have i: "idOf ?m = Some 3"
    by (simp add: parse_simps)
  have p: "ParseUint ''2'' = Inr 2"
    by (simp add: parse_simps)
  have l: "(2 :: 64 word) < 3"
    by simp
  show ?thesis
    using GetMessagesSince_before_window [OF b a i p l] b a i p l by simp
qed

text \<open>
  Claim C5 as stated fails: after five publishes with history capacity 3 the oldest
  buffered id is 3; replay with watermark 1 returns the three buffered records.
\<close>

theorem GetMessagesSince_old_watermark_replays_all:
  "map ID (GetMessagesSince
      (hub (state_of (Broadcasts five_publishes (fresh_world (example_config 1 3))))) ''1'') =
   [''3'', ''4'', ''5'']"
  by (simp add: five_published GetMessagesSince_def parse_simps)

text \<open>
  Claim C6, as the code has it. The counter \<open>lastID\<close> is a \<open>uint64\<close>. For every sequence
  of \<open>n < 2 ^ 64\<close> publishes on a freshly constructed hub, every call returns, the
  counter ends at \<open>n\<close>, the \<open>k\<close>-th publish is assigned the id \<open>k\<close> (the ids are the
  decimal numerals of 1, 2, ..., n), they strictly increase and no two are equal.
\<close>

theorem publish_ids_count_up:
  assumes "hub w = NewHub c" and "length ps < 2 ^ 64"
  shows "returned (Broadcasts ps w) \<and>
         lastID (hub (state_of (Broadcasts ps w))) = of_nat (length ps) \<and>
         map ID (records ps w) = map dec [1..<Suc (length ps)] \<and>
         ascending (records ps w) \<and> distinct (map ID (records ps w))"
proof -
  have nc: "clients (hub w) = []" and l0: "lastID (hub w) = 0"
    using assms(1) by (simp_all add: NewHub_def)
  obtain w' where w': "Broadcasts ps w = Returned w'"
    and l: "lastID (hub w') = lastID (hub w) + of_nat (length ps)"
    using Broadcasts_no_clients [OF nc, of ps] by blast
  have asc: "ascending (records ps w)"
    using idOf_records_fresh [OF nc l0, of ps] assms(2) by (rule ascending_map)
  show ?thesis
    using w' l l0 IDs_records_fresh [OF nc l0 assms(2)] asc distinct_IDs [OF asc]
    by simp
qed

theorem publish_ids_count_up_witness:
  "hub (fresh_world (example_config 1 3)) = NewHub (example_config 1 3) \<and>
   length five_publishes < 2 ^ 64 \<and>
   returned (Broadcasts five_publishes (fresh_world (example_config 1 3))) \<and>
   lastID (hub (state_of (Broadcasts five_publishes (fresh_world (example_config 1 3))))) =
     of_nat (length five_publishes) \<and>
   map ID (records five_publishes (fresh_world (example_config 1 3))) =
     map dec [1..<Suc (length five_publishes)] \<and>
   ascending (records five_publishes (fresh_world (example_config 1 3))) \<and>
   distinct (map ID (records five_publishes (fresh_world (example_config 1 3))))"
proof -
  have h: "hub (fresh_world (example_config 1 3)) = NewHub (example_config 1 3)"
    by (simp add: fresh_world_def)
  have n: "length five_publishes < 2 ^ 64"
    by (simp add: five_publishes_def)
  show ?thesis
    using publish_ids_count_up [OF h n] h n by blast
qed

text \<open>
  Claim C6 as stated fails for sequences of \<open>2 ^ 64\<close> publishes or more: the counter
  wraps around. In a sequence of \<open>2 ^ 64 + 1\<close> publishes on a fresh hub the last publish
  is assigned the id 1, which the first publish was assigned too.
\<close>

theorem publish_ids_wrap_around:
  "map ID (records (replicate (2 ^ 64 + 1) ([], [], 0)) (fresh_world (example_config 1 1))) ! 0
     = ''1'' \<and>
   map ID (records (replicate (2 ^ 64 + 1) ([], [], 0)) (fresh_world (example_config 1 1)))
     ! (2 ^ 64) = ''1''"
proof -
  let ?w = "fresh_world (example_config 1 1)"
  let ?ps = "replicate (2 ^ 64 + 1) ([] :: 8 word list, [] :: string list, 0 :: 8 word)"
  have nc: "clients (hub ?w) = []" and l0: "lastID (hub ?w) = 0"
    by (simp_all add: fresh_world_def NewHub_def)
  have len: "length ?ps = 2 ^ 64 + 1"
    by (rule length_replicate)
  have nth: "map ID (records ?ps ?w) ! k = FormatUint (of_nat (Suc k))" if "k < 2 ^ 64 + 1" for k
    using that nth_ID_records [OF nc, of k ?ps] l0 by (simp only: len) simp
  have one: "FormatUint 1 = ''1''"
    by (simp add: FormatUint_def dec.simps digit_char_def)
  have wrap: "(of_nat (Suc (2 ^ 64)) :: 64 word) = 1"
    by simp
  have "map ID (records ?ps ?w) ! 0 = ''1''"
    using nth [of 0] one by simp
  moreover have "map ID (records ?ps ?w) ! (2 ^ 64) = ''1''"
    using nth [of "2 ^ 64"] one by (simp only: wrap)
  ultimately show ?thesis by (rule conjI)
qed

text \<open>
  Claim C7, as the code has it. For every configured capacity \<open>N > 0\<close> and every sequence
  of publishes on a freshly constructed hub: every call returns, the history buffer
  holds at most \<open>N\<close> records, and it holds the records published, in publication order,
  with all but the last \<open>N\<close> of them dropped: eviction is first in, first out. The \<open>k\<close>-th
  record published carries the \<open>k\<close>-th value of the \<open>uint64\<close> counter as its id, so the
  retained records are the \<open>N\<close> with the greatest ids, in ascending id order, while
  fewer than \<open>2 ^ 64\<close> records have been published.
\<close>

theorem history_keeps_most_recent:
  assumes "0 < HistoryReplayBuffer c" and "hub w = NewHub c"
  shows "returned (Broadcasts ps w) \<and>
         int (length (messageBuffer (hub (state_of (Broadcasts ps w))))) \<le> HistoryReplayBuffer c \<and>
         messageBuffer (hub (state_of (Broadcasts ps w))) =
           drop (length ps - nat (HistoryReplayBuffer c)) (records ps w) \<and>
         length (records ps w) = length ps \<and>
         map ID (records ps w) = map (\<lambda>k. FormatUint (of_nat k)) [1..<Suc (length ps)] \<and>
         (length ps < 2 ^ 64 \<longrightarrow> ascending (messageBuffer (hub (state_of (Broadcasts ps w)))))"
proof -
  have nc: "clients (hub w) = []" and l0: "lastID (hub w) = 0"
    and cf: "0 < HistoryReplayBuffer (config (hub w))"
    and cfg: "HistoryReplayBuffer (config (hub w)) = HistoryReplayBuffer c"
    and mb: "messageBuffer (hub w) = []"
    using assms by (simp_all add: NewHub_def)
  obtain w' where w': "Broadcasts ps w = Returned w'"
    using Broadcasts_no_clients [OF nc, of ps] by blast
  have len: "length (records ps w) = length ps"
    by (rule length_records_no_clients [OF nc])
  have buf: "messageBuffer (hub w') = drop (length ps - nat (HistoryReplayBuffer c)) (records ps w)"
    using Broadcasts_buffer_trim [OF nc cf _ w'] mb cf len cfg by simp
  have bound: "int (length (messageBuffer (hub w'))) \<le> HistoryReplayBuffer c"
    using assms(1) by (simp add: buf len)
  have ids: "map ID (records ps w) = map (\<lambda>k. FormatUint (of_nat k)) [1..<Suc (length ps)]"
  proof -
    have "map ID (records ps w) = map (\<lambda>k. FormatUint (of_nat (Suc k))) [0..<length ps]"
      using records_no_clients [OF nc, of ps] l0 by simp
    also have "\<dots> = map (\<lambda>k. FormatUint (of_nat k)) (map Suc [0..<length ps])"
      by (simp add: comp_def)
    also have "map Suc [0..<length ps] = [1..<Suc (length ps)]"
      by (simp only: map_Suc_upt One_nat_def)
    finally show ?thesis .
  qed
  have asc: "ascending (messageBuffer (hub w'))" if "length ps < 2 ^ 64"
  proof -
    have "ascending (records ps w)"
      using idOf_records_fresh [OF nc l0, of ps] that by (rule ascending_map)
    then show ?thesis
      by (simp only: buf ascending_drop)
  qed
  show ?thesis
    using w' buf bound len ids asc by simp
qed

theorem history_keeps_most_recent_witness:
  "0 < HistoryReplayBuffer (example_config 1 3) \<and>
   hub (fresh_world (example_config 1 3)) = NewHub (example_config 1 3) \<and>
   returned (Broadcasts five_publishes (fresh_world (example_config 1 3))) \<and>
   int (length (messageBuffer
          (hub (state_of (Broadcasts five_publishes (fresh_world (example_config 1 3)))))))
     \<le> HistoryReplayBuffer (example_config 1 3) \<and>
   messageBuffer (hub (state_of (Broadcasts five_publishes (fresh_world (example_config 1 3))))) =
     drop (length five_publishes - nat (HistoryReplayBuffer (example_config 1 3)))
       (records five_publishes (fresh_world (example_config 1 3))) \<and>
   length (records five_publishes (fresh_world (example_config 1 3))) = length five_publishes \<and>
   map ID (records five_publishes (fresh_world (example_config 1 3))) =
     map (\<lambda>k. FormatUint (of_nat k)) [1..<Suc (length five_publishes)] \<and>
   length five_publishes < 2 ^ 64 \<and>
   ascending
     (messageBuffer (hub (state_of (Broadcasts five_publishes (fresh_world (example_config 1 3))))))"
proof -
  have c: "0 < HistoryReplayBuffer (example_config 1 3)"
    by (simp add: example_config_def)
  have h: "hub (fresh_world (example_config 1 3)) = NewHub (example_config 1 3)"
    by (simp add: fresh_world_def)
  have n: "length five_publishes < 2 ^ 64"
    by (simp add: five_publishes_def)
  show ?thesis
    using history_keeps_most_recent [OF c h, of five_publishes] c h n by blast
qed

text \<open>
  Claim C7 as stated fails where the counter wraps around: with capacity 2, after
  \<open>2 ^ 64\<close> publishes the buffer holds the ids 18446744073709551615 and 0, in that
  order. They are the two most recently published records, but not in ascending id
  order, and the record with id 0 is not among the two greatest ids published.
\<close>

theorem history_ids_wrap_around:
  "map ID (messageBuffer (hub (state_of
      (Broadcasts (replicate (2 ^ 64) ([], [], 0)) (fresh_world (example_config 1 2)))))) =
   [''18446744073709551615'', ''0'']"
proof -
  let ?w = "fresh_world (example_config 1 2)"
  let ?ps = "replicate (2 ^ 64) ([] :: 8 word list, [] :: string list, 0 :: 8 word)"
  have nc: "clients (hub ?w) = []" and l0: "lastID (hub ?w) = 0"
    and cf: "0 < HistoryReplayBuffer (config (hub ?w))"
    and n2: "nat (HistoryReplayBuffer (config (hub ?w))) = 2"
    and mb: "messageBuffer (hub ?w) = []"
    by (simp_all add: fresh_world_def NewHub_def example_config_def)
  have len: "length ?ps = 2 ^ 64"
    by (rule length_replicate)
  obtain w' where w': "Broadcasts ?ps ?w = Returned w'"
    using Broadcasts_no_clients [OF nc, of ?ps] by blast
  have "messageBuffer (hub w') =
      drop (length (messageBuffer (hub ?w) @ records ?ps ?w)
              - nat (HistoryReplayBuffer (config (hub ?w))))
        (messageBuffer (hub ?w) @ records ?ps ?w)"
    using nc cf _ w' by (rule Broadcasts_buffer_trim) (use cf in \<open>simp add: mb\<close>)
  then have "messageBuffer (hub w') = drop (2 ^ 64 - 2) (records ?ps ?w)"
    by (simp only: mb n2 append_Nil length_records_no_clients [OF nc] len)
  then have "map ID (messageBuffer (hub w')) = drop (2 ^ 64 - 2) (map ID (records ?ps ?w))"
    by (simp only: drop_map)
  also have "map ID (records ?ps ?w) = map (\<lambda>k. FormatUint (of_nat (Suc k))) [0..<2 ^ 64]"
    using records_no_clients [OF nc, of ?ps] by (simp only: len l0 add_0)
  also have "drop (2 ^ 64 - 2) (map (\<lambda>k. FormatUint (of_nat (Suc k))) [0..<2 ^ 64]) =
      [FormatUint (of_nat (Suc (2 ^ 64 - 2))), FormatUint (of_nat (Suc (Suc (2 ^ 64 - 2))))]"
    by (rule last_two_of_upt) simp
  also have "(of_nat (Suc (2 ^ 64 - 2)) :: 64 word) = 18446744073709551615"
    by simp
  also have "(of_nat (Suc (Suc (2 ^ 64 - 2))) :: 64 word) = 0"
    by simp
  also have "FormatUint 18446744073709551615 = ''18446744073709551615''"
    by (simp add: FormatUint_def dec_max)
  also have "FormatUint 0 = ''0''"
    by (simp add: FormatUint_def dec.simps digit_char_def)
  finally show ?thesis
    by (simp only: w' state_of.simps)
qed

text \<open>
  Claim C8. \<open>unregister\<close> is idempotent. With a connection whose id is not registered
  it returns and leaves the state unchanged. With the registered connection, whose
  outbound queue is open, it returns, the connection is removed and its queue is closed,
  the queued records and every other queue untouched. Whenever a call returns, the id is
  no longer registered and a second call with the same connection returns the same
  state: it closes nothing, so no queue is closed twice.
\<close>

theorem unregister_idempotent:
  "(map_of (clients (hub w)) (clientID c) = None \<longrightarrow> unregister c w = Returned w) \<and>
   (map_of (clients (hub w)) (clientID c) = Some c \<and> chans w (Send c) = Some q \<and> \<not> closed q \<longrightarrow>
      unregister c w =
        Returned \<lparr>hub = (hub w)\<lparr>clients := AList.delete (clientID c) (clients (hub w))\<rparr>,
                  chans = (chans w)(Send c \<mapsto> q\<lparr>closed := True\<rparr>)\<rparr>) \<and>
   (unregister c w = Returned w' \<longrightarrow>
      map_of (clients (hub w')) (clientID c) = None \<and> unregister c w' = Returned w')"
proof (intro conjI impI)
  show "unregister c w = Returned w" if "map_of (clients (hub w)) (clientID c) = None"
    using that by (simp add: unregister_def)
  show "unregister c w =
        Returned \<lparr>hub = (hub w)\<lparr>clients := AList.delete (clientID c) (clients (hub w))\<rparr>,
                  chans = (chans w)(Send c \<mapsto> q\<lparr>closed := True\<rparr>)\<rparr>"
    if "map_of (clients (hub w)) (clientID c) = Some c \<and> chans w (Send c) = Some q \<and> \<not> closed q"
    using that by (simp add: unregister_def chan_close_def)
  assume r: "unregister c w = Returned w'"
  then show gone: "map_of (clients (hub w')) (clientID c) = None"
    by (rule unregister_twice)
  then show "unregister c w' = Returned w'"
    by (simp add: unregister_def)
qed

text \<open>
  With one registered connection: unregistering it closes its queue; unregistering it
  again, or unregistering it on a hub that never knew it, changes nothing.
\<close>

theorem unregister_idempotent_witness:
  "map_of (clients (hub (fresh_world (example_config 1 3)))) (clientID (subscriber [''x''])) = None \<and>
   unregister (subscriber [''x'']) (fresh_world (example_config 1 3)) =
     Returned (fresh_world (example_config 1 3)) \<and>
   map_of (clients (hub (one_subscriber 1 [''x'']))) (clientID (subscriber [''x''])) =
     Some (subscriber [''x'']) \<and>
   chans (one_subscriber 1 [''x'']) (Send (subscriber [''x''])) =
     Some \<lparr>queue = [], capacity = 1, closed = False\<rparr> \<and>
   \<not> closed \<lparr>queue = [], capacity = 1, closed = False\<rparr> \<and>
   unregister (subscriber [''x'']) (one_subscriber 1 [''x'']) =
     Returned \<lparr>hub = NewHub (example_config 1 3),
               chans = [0 \<mapsto> \<lparr>queue = [], capacity = 1, closed = True\<rparr>]\<rparr> \<and>
   unregister (subscriber [''x''])
       \<lparr>hub = NewHub (example_config 1 3),
        chans = [0 \<mapsto> \<lparr>queue = [], capacity = 1, closed = True\<rparr>]\<rparr> =
     Returned \<lparr>hub = NewHub (example_config 1 3),
               chans = [0 \<mapsto> \<lparr>queue = [], capacity = 1, closed = True\<rparr>]\<rparr>"
  using unregister_idempotent [of "fresh_world (example_config 1 3)" "subscriber [''x'']"]
    unregister_idempotent [of "one_subscriber 1 [''x'']" "subscriber [''x'']"
      "\<lparr>queue = [], capacity = 1, closed = False\<rparr>"
      "\<lparr>hub = NewHub (example_config 1 3),
        chans = [0 \<mapsto> \<lparr>queue = [], capacity = 1, closed = True\<rparr>]\<rparr>"]
  by (simp add: one_subscriber_def subscriber_def register_def fresh_world_def NewHub_def)




text \<open>
  Claim C10. For every hub and every non-empty \<open>lastEventID\<close> that is not an unsigned
  64-bit decimal numeral (a byte that is not a digit, or a value of \<open>2 ^ 64\<close> or more),
  \<open>GetMessagesSince\<close> returns the nil slice: no error value and no panic. The function
  reads the hub and writes no field of it, which the model shows by its type.
\<close>

theorem GetMessagesSince_unparsable:
  "s \<noteq> [] \<Longrightarrow> \<not> is_uint64_decimal s \<Longrightarrow> GetMessagesSince h s = []"
proof -
  assume "s \<noteq> []" and bad: "\<not> is_uint64_decimal s"
  obtain err where "ParseUint s = Inl err"
    using bad ParseUint_Inr_iff [of s] by (cases "ParseUint s") auto
  then show ?thesis
    by (simp add: GetMessagesSince_def)
qed

theorem GetMessagesSince_unparsable_witness:
  "''12a'' \<noteq> [] \<and> \<not> is_uint64_decimal ''12a'' \<and>
   GetMessagesSince (hub (state_of (Broadcasts five_publishes (fresh_world (example_config 1 3)))))
     ''12a'' = [] \<and>
   ''18446744073709551616'' \<noteq> [] \<and> \<not> is_uint64_decimal ''18446744073709551616'' \<and>
   GetMessagesSince (hub (state_of (Broadcasts five_publishes (fresh_world (example_config 1 3)))))
     ''18446744073709551616'' = []"
proof -
  let ?h = "hub (state_of (Broadcasts five_publishes (fresh_world (example_config 1 3))))"
  have a: "\<not> is_uint64_decimal ''12a''"
    by (simp add: is_uint64_decimal_def is_digit_def)
  have b: "\<not> is_uint64_decimal ''18446744073709551616''"
    by (simp add: is_uint64_decimal_def is_digit_def decimal_value_def digit_val_def)
  show ?thesis
    using GetMessagesSince_unparsable [OF _ a, of ?h] GetMessagesSince_unparsable [OF _ b, of ?h] a b
    by simp
qed

end
